theory Spec2Isabelle
  imports Complex_Main "HOL-Library.Word" "HOL-Library.Log_Nat"
begin

section \<open>netspeed: the sampling, rate and formatting pipeline of main.c\<close>

text \<open>
  The program is one C file. Its integers are modelled at their width:
  \<open>unsigned long long\<close> is \<open>64 word\<close>, \<open>unsigned int\<close> is \<open>32 word\<close>, and the
  small \<open>int\<close> counters (at most 32, or \<open>-1\<close>) are \<open>int\<close>. A C string is a
  \<open>string\<close> without the terminating NUL, so \<open>strcmp(a, b) == 0\<close> is \<open>a = b\<close>.
  The two arrays of \<open>main\<close> are lists of length \<open>MAX_INTERFACES\<close>.
\<close>

subsection \<open>Constants and the data model\<close>

definition MAX_INTERFACES :: nat where
  "MAX_INTERFACES = 32"

definition MAX_LINE_LEN :: nat where
  "MAX_LINE_LEN = 256"

definition MAX_NAME_LEN :: nat where
  "MAX_NAME_LEN = 16"

definition DECIMAL_BASE :: int where
  "DECIMAL_BASE = 1000"

type_synonym ull = "64 word"
type_synonym uint = "32 word"

record interface_t =
  name :: string
  rx_bytes :: ull
  tx_bytes :: ull

text \<open>The value of \<open>interface_t x[MAX_INTERFACES] = {}\<close>: every field zero, every name empty.\<close>

definition zero_interface :: interface_t where
  "zero_interface = \<lparr>name = [], rx_bytes = 0, tx_bytes = 0\<rparr>"

definition zero_interfaces :: "interface_t list" where
  "zero_interfaces = replicate MAX_INTERFACES zero_interface"

subsection \<open>Rate calculator\<close>

text \<open>
  The inner loop of \<open>calculate_and_output_rates\<close>:
  \<^verbatim>\<open>for (int j = 0; j < count; j++) if (strcmp(curr[i].name, prev[j].name) == 0) { ...; break; }\<close>
  It returns the two rates of the first slot \<open>j < count\<close> of \<open>prev\<close> whose name equals
  the name of \<open>c\<close>, and \<open>None\<close> when the loop ends without a match. The bound is the
  \<open>count\<close> handed to the function, for both arrays.
\<close>

function inner_loop :: "interface_t list \<Rightarrow> interface_t \<Rightarrow> uint \<Rightarrow> nat \<Rightarrow> nat \<Rightarrow> (ull \<times> ull) option" where
  "inner_loop prev c polling_interval count j =
     (if j < count then
        (if name c = name (prev ! j) then
           Some ((rx_bytes c - rx_bytes (prev ! j)) div ucast polling_interval,
                 (tx_bytes c - tx_bytes (prev ! j)) div ucast polling_interval)
         else inner_loop prev c polling_interval count (Suc j))
      else None)"
  by pat_completeness auto
termination
  by (relation "measure (\<lambda>(prev, c, p, count, j). count - j)") auto

declare inner_loop.simps [simp del]

text \<open>
  The outer loop, \<^verbatim>\<open>for (int i = 0; i < count; i++)\<close>, with the two running totals
  \<open>total_rx_rate\<close> and \<open>total_tx_rate\<close> (additions wrap modulo \<open>2 ^ 64\<close>).
\<close>

function outer_loop :: "interface_t list \<Rightarrow> interface_t list \<Rightarrow> uint \<Rightarrow> nat \<Rightarrow> nat \<Rightarrow> ull \<times> ull \<Rightarrow> ull \<times> ull" where
  "outer_loop prev cur polling_interval count i totals =
     (if i < count then
        (case inner_loop prev (cur ! i) polling_interval count 0 of
           None \<Rightarrow> outer_loop prev cur polling_interval count (Suc i) totals
         | Some (rx_rate, tx_rate) \<Rightarrow>
             outer_loop prev cur polling_interval count (Suc i)
               (fst totals + rx_rate, snd totals + tx_rate))
      else totals)"
  by pat_completeness auto
termination
  by (relation "measure (\<lambda>(prev, cur, p, count, i, totals). count - i)") auto

declare outer_loop.simps [simp del]

text \<open>
  The two totals that \<open>calculate_and_output_rates\<close> hands to \<open>output_json\<close>. The C
  parameter \<open>count\<close> is an \<open>int\<close>; a count below 1 runs no iteration.
\<close>

definition calculate_rates :: "interface_t list \<Rightarrow> interface_t list \<Rightarrow> int \<Rightarrow> uint \<Rightarrow> ull \<times> ull" where
  "calculate_rates prev cur count polling_interval =
     outer_loop prev cur polling_interval (nat count) 0 (0, 0)"

subsection \<open>Human-readable formatter\<close>

text \<open>
  \<open>format_human_readable\<close> computes in \<open>double\<close>. A finite \<open>double\<close> is a rational
  number, and the model keeps the value exactly as a \<open>rat\<close>; each operation that rounds
  in C (the conversion \<open>(double)bytes\<close> and the division \<open>value /= 1000.0\<close>) rounds here
  with \<open>to_double\<close>, IEEE 754 binary64 round-to-nearest, ties to even, on a significand of
  53 bits. The formatter only reaches values from 1 up to \<open>2 ^ 64\<close>, all normal numbers,
  and \<open>to_double\<close> is written for arguments of at least 1.
\<close>

definition round_half_even :: "rat \<Rightarrow> int" where
  "round_half_even q =
     (let f = \<lfloor>q\<rfloor>; r = q - of_int f in
      if r < 1 / 2 then f
      else if 1 / 2 < r then f + 1
      else if even f then f else f + 1)"

definition pow2 :: "int \<Rightarrow> rat" where
  "pow2 e = (if 0 \<le> e then 2 ^ nat e else 1 / 2 ^ nat (- e))"

text \<open>
  For \<open>q \<ge> 1\<close> the integer part of \<open>q\<close> has \<open>bitlen \<lfloor>q\<rfloor>\<close> binary digits, so the
  spacing of the doubles around \<open>q\<close> is \<open>pow2 (bitlen \<lfloor>q\<rfloor> - 53)\<close>.
\<close>

definition to_double :: "rat \<Rightarrow> rat" where
  "to_double q =
     (let e = bitlen \<lfloor>q\<rfloor> - 53 in
      of_int (round_half_even (q / pow2 e)) * pow2 e)"

definition units :: "string list" where
  "units = [''B'', ''K'', ''M'', ''G'', ''T'', ''P'']"

definition num_units :: nat where
  "num_units = length units"

text \<open>\<^verbatim>\<open>while (value >= DECIMAL_BASE && unit_idx < num_units - 1) { value /= 1000.0; unit_idx++; }\<close>\<close>

function scale_loop :: "rat \<Rightarrow> nat \<Rightarrow> rat \<times> nat" where
  "scale_loop v unit_idx =
     (if of_int DECIMAL_BASE \<le> v \<and> unit_idx < num_units - 1
      then scale_loop (to_double (v / 1000)) (Suc unit_idx)
      else (v, unit_idx))"
  by pat_completeness auto
termination
  by (relation "measure (\<lambda>(v, unit_idx). num_units - 1 - unit_idx)") auto

declare scale_loop.simps [simp del]

text \<open>
  The conversion \<open>%llu\<close>: the decimal digits of a number that is not negative, most
  significant first.
\<close>

definition digit_char :: "nat \<Rightarrow> char" where
  "digit_char d = ''0123456789'' ! d"

function dec_string :: "int \<Rightarrow> string" where
  "dec_string n =
     (if n < 10 then [digit_char (nat n)]
      else dec_string (n div 10) @ [digit_char (nat (n mod 10))])"
  by pat_completeness auto
termination
  by (relation "measure nat") auto

declare dec_string.simps [simp del]

text \<open>
  The conversion \<open>%.1f\<close> of a non-negative value: the value is rounded to a whole number
  of tenths \<open>t\<close> (the C library rounds the exact binary value, ties to even) and printed
  as the integer part, a point and one digit.
\<close>

definition tenths :: "rat \<Rightarrow> int" where
  "tenths v = round_half_even (10 * v)"

definition format_fixed1 :: "rat \<Rightarrow> string" where
  "format_fixed1 v = dec_string (tenths v div 10) @ ''.'' @ [digit_char (nat (tenths v mod 10))]"

text \<open>\<open>snprintf(output, 16, ...)\<close> stores at most 15 characters.\<close>

definition format_human_readable :: "ull \<Rightarrow> string" where
  "format_human_readable bytes =
     (if uint bytes < DECIMAL_BASE then take 15 (dec_string (uint bytes) @ units ! 0)
      else
        (case scale_loop (to_double (of_int (uint bytes))) 0 of
           (v, unit_idx) \<Rightarrow> take 15 (format_fixed1 v @ units ! unit_idx)))"

subsection \<open>Output lines\<close>

text \<open>
  Every line the program writes is one of three \<open>printf\<close> calls. The model records which
  call it was and with which arguments; \<open>render\<close> gives the bytes. The warning sign
  of the error line and the two arrow glyphs of the sample line (one after each rate) are
  three bytes of UTF-8 each.
\<close>

datatype out_line =
    Json string string
  | Error_json string string
  | Usage string

definition dq :: string where
  "dq = [CHR 0x22]"

definition nl :: string where
  "nl = [CHR 0x0A]"

text \<open>The conversion \<open>%4s\<close>: padded with spaces on the left to at least 4 characters.\<close>

definition pad4 :: "string \<Rightarrow> string" where
  "pad4 s = replicate (4 - length s) (CHR '' '') @ s"

definition render :: "out_line \<Rightarrow> string" where
  "render l =
     (case l of
        Json rx_str tx_str \<Rightarrow>
          ''{'' @ dq @ ''text'' @ dq @ '': '' @ dq
          @ pad4 rx_str @ '' '' @ [CHR 0xEF, CHR 0x81, CHR 0xA3] @ '' ''
          @ pad4 tx_str @ '' '' @ [CHR 0xEF, CHR 0x81, CHR 0xA2] @ dq @ ''}'' @ nl
      | Error_json text tooltip \<Rightarrow>
          ''{'' @ dq @ ''text'' @ dq @ '': '' @ dq @ [CHR 0xE2, CHR 0x9A, CHR 0xA0] @ '' '' @ text @ dq
          @ '', '' @ dq @ ''tooltip'' @ dq @ '': '' @ dq @ tooltip @ dq
          @ '', '' @ dq @ ''class'' @ dq @ '': '' @ dq @ ''error'' @ dq @ ''}'' @ nl
      | Usage progname \<Rightarrow>
          ''Usage: '' @ progname @ '' [-t POLLING_INTERVAL] [INTERFACE...]'' @ nl)"

definition output_error :: "string \<Rightarrow> string \<Rightarrow> out_line" where
  "output_error text tooltip = Error_json text tooltip"

definition output_json :: "ull \<Rightarrow> ull \<Rightarrow> out_line" where
  "output_json rx_rate tx_rate =
     Json (format_human_readable rx_rate) (format_human_readable tx_rate)"

definition calculate_and_output_rates ::
    "interface_t list \<Rightarrow> interface_t list \<Rightarrow> int \<Rightarrow> uint \<Rightarrow> out_line" where
  "calculate_and_output_rates prev cur count polling_interval =
     (case calculate_rates prev cur count polling_interval of
        (total_rx_rate, total_tx_rate) \<Rightarrow> output_json total_rx_rate total_tx_rate)"

text \<open>A normal sample line is a line written by \<open>output_json\<close>.\<close>

fun is_sample :: "out_line \<Rightarrow> bool" where
  "is_sample (Json rx_str tx_str) = True"
| "is_sample (Error_json text tooltip) = False"
| "is_sample (Usage progname) = False"

fun is_error :: "out_line \<Rightarrow> bool" where
  "is_error (Json rx_str tx_str) = False"
| "is_error (Error_json text tooltip) = True"
| "is_error (Usage progname) = False"

subsection \<open>Interface name filter\<close>

text \<open>
  \<open>is_valid_interface\<close> runs the POSIX extended regular expression
  \<^verbatim>\<open>^(eth|wlan|enp|wlp)\<close> on the name: an anchor and four literal alternatives, which
  match exactly when one alternative is an initial segment of the name. (\<open>regcomp\<close> of
  this constant pattern is taken to succeed.)
\<close>

definition regex_alternatives :: "string list" where
  "regex_alternatives = [''eth'', ''wlan'', ''enp'', ''wlp'']"

definition starts_with :: "string \<Rightarrow> string \<Rightarrow> bool" where
  "starts_with p s = (take (length p) s = p)"

definition is_valid_interface :: "string \<Rightarrow> bool" where
  "is_valid_interface nm = list_ex (\<lambda>p. starts_with p nm) regex_alternatives"

text \<open>
  The decision of \<open>read_interfaces\<close>, lines 120 to 135: with \<open>filter_count > 0\<close> the
  name is looked up in \<open>interface_filter\<close> with \<open>strcmp\<close>, otherwise
  \<open>is_valid_interface\<close> decides. \<open>interface_filter\<close> is the list of the positional
  arguments and \<open>filter_count\<close> its length.
\<close>

definition passes_filter :: "string list \<Rightarrow> string \<Rightarrow> bool" where
  "passes_filter interface_filter nm =
     (if 0 < length interface_filter then list_ex (\<lambda>f. nm = f) interface_filter
      else is_valid_interface nm)"

subsection \<open>Counter snapshot reader\<close>

text \<open>Characters: \<open>isspace\<close> and \<open>isdigit\<close> of the C locale.\<close>

definition isspace :: "char \<Rightarrow> bool" where
  "isspace c = (c \<in> set [CHR 0x20, CHR 0x09, CHR 0x0A, CHR 0x0B, CHR 0x0C, CHR 0x0D])"

definition isdigit :: "char \<Rightarrow> bool" where
  "isdigit c = (c \<in> set ''0123456789'')"

definition digit_val :: "char \<Rightarrow> int" where
  "digit_val c = int (length (takeWhile (\<lambda>d. d \<noteq> c) ''0123456789''))"

text \<open>The value of a run of decimal digits, read from the left with accumulator \<open>acc\<close>.\<close>

fun digits_val :: "int \<Rightarrow> string \<Rightarrow> int" where
  "digits_val acc [] = acc"
| "digits_val acc (c # cs) = digits_val (10 * acc + digit_val c) cs"

text \<open>
  One \<open>%llu\<close> directive of \<open>sscanf\<close>: white space is skipped, a sign may follow, then
  at least one digit must come. The result is the value and the rest of the input, or
  \<open>None\<close> on a matching failure. A value beyond \<open>ULLONG_MAX\<close> is stored as
  \<open>ULLONG_MAX\<close>, and a minus sign negates modulo \<open>2 ^ 64\<close>, as \<open>strtoull\<close> does.
\<close>

definition ULLONG_MAX :: int where
  "ULLONG_MAX = 18446744073709551615"

definition scan_llu :: "string \<Rightarrow> (ull \<times> string) option" where
  "scan_llu s =
     (let s1 = dropWhile isspace s;
          neg = (s1 \<noteq> [] \<and> hd s1 = CHR ''-'');
          s2 = (if s1 \<noteq> [] \<and> (hd s1 = CHR ''-'' \<or> hd s1 = CHR ''+'') then tl s1 else s1);
          ds = takeWhile isdigit s2;
          n = digits_val 0 ds
      in if ds = [] then None
         else if ULLONG_MAX < n then Some (word_of_int ULLONG_MAX, dropWhile isdigit s2)
         else if neg then Some (- word_of_int n, dropWhile isdigit s2)
         else Some (word_of_int n, dropWhile isdigit s2))"

text \<open>
  \<open>sscanf\<close> with \<open>n\<close> directives \<open>%llu\<close> separated by spaces: the values converted
  before the first matching failure. The return value of \<open>sscanf\<close> is the length of
  this list.
\<close>

fun sscanf_llu :: "nat \<Rightarrow> string \<Rightarrow> ull list" where
  "sscanf_llu 0 s = []"
| "sscanf_llu (Suc n) s =
     (case scan_llu s of
        None \<Rightarrow> []
      | Some (v, rest) \<Rightarrow> v # sscanf_llu n rest)"

text \<open>
  The body of the \<open>while\<close> loop of \<open>read_interfaces\<close> on one line: \<open>None\<close> when the
  line is skipped (\<open>continue\<close>, or \<open>sscanf\<close> did not convert 16 fields), otherwise the
  entry stored at \<open>interfaces[count]\<close>. The name is cut twice, by \<open>%.15s\<close> and by the
  size \<open>MAX_NAME_LEN\<close> given to \<open>snprintf\<close>.
\<close>

definition parse_line :: "string list \<Rightarrow> string \<Rightarrow> interface_t option" where
  "parse_line interface_filter line =
     (if CHR '':'' \<notin> set line then None
      else
        (let nm = dropWhile (\<lambda>c. c = CHR '' '') (takeWhile (\<lambda>c. c \<noteq> CHR '':'') line);
             data = tl (dropWhile (\<lambda>c. c \<noteq> CHR '':'') line);
             vs = sscanf_llu 16 data
         in if \<not> passes_filter interface_filter nm then None
            else if length vs = 16 then
              Some \<lparr>name = take (MAX_NAME_LEN - 1) (take 15 nm),
                    rx_bytes = vs ! 0, tx_bytes = vs ! 8\<rparr>
            else None))"

text \<open>
  \<open>fgets(line, MAX_LINE_LEN, fp)\<close> reads up to and including a newline, and at most
  \<open>MAX_LINE_LEN - 1\<close> characters. \<open>fgets_lines room line s\<close> are the strings that
  successive calls return until the end of the file \<open>s\<close>, when \<open>line\<close> has been read
  of the current one and \<open>room\<close> characters still fit.
\<close>

fun fgets_lines :: "nat \<Rightarrow> string \<Rightarrow> string \<Rightarrow> string list" where
  "fgets_lines room line [] = (if line = [] then [] else [line])"
| "fgets_lines room line (c # cs) =
     (if c = CHR 0x0A \<or> room \<le> 1 then (line @ [c]) # fgets_lines (MAX_LINE_LEN - 1) [] cs
      else fgets_lines (room - 1) (line @ [c]) cs)"

definition file_lines :: "string \<Rightarrow> string list" where
  "file_lines s = fgets_lines (MAX_LINE_LEN - 1) [] s"

text \<open>
  \<^verbatim>\<open>while (fgets(line, sizeof(line), fp) && count < MAX_INTERFACES) { ... }\<close> over the lines
  still to be read, with the array and \<open>count\<close> as state.
\<close>

fun read_loop :: "string list \<Rightarrow> string list \<Rightarrow> interface_t list \<Rightarrow> nat \<Rightarrow> nat \<times> interface_t list" where
  "read_loop interface_filter [] interfaces count = (count, interfaces)"
| "read_loop interface_filter (line # rest) interfaces count =
     (if count < MAX_INTERFACES then
        (case parse_line interface_filter line of
           None \<Rightarrow> read_loop interface_filter rest interfaces count
         | Some e \<Rightarrow> read_loop interface_filter rest (interfaces[count := e]) (Suc count))
      else (count, interfaces))"

text \<open>
  \<open>read_interfaces\<close>. The source is \<open>None\<close> when \<open>fopen\<close> fails, otherwise the content
  of \<^verbatim>\<open>/proc/net/dev\<close>. The result is the return value, the array and the lines written.
  The first two \<open>fgets\<close> calls drop the header lines.
\<close>

definition read_interfaces ::
    "string list \<Rightarrow> string option \<Rightarrow> interface_t list \<Rightarrow> int \<times> interface_t list \<times> out_line list" where
  "read_interfaces interface_filter src interfaces =
     (case src of
        None \<Rightarrow> (- 1, interfaces, [output_error ''Error'' ''Cannot open /proc/net/dev''])
      | Some content \<Rightarrow>
          (case read_loop interface_filter (drop 2 (file_lines content)) interfaces 0 of
             (count, interfaces') \<Rightarrow> (int count, interfaces', [])))"

subsection \<open>Polling driver\<close>

text \<open>
  \<open>atoi(s)\<close> is \<open>(int) strtol(s, NULL, 10)\<close>. \<open>strtol\<close> skips white space, takes an
  optional sign and then digits up to the first character that is none (no digits give
  0), and a value outside the range of \<open>long\<close> (64 bits) becomes \<open>LONG_MIN\<close> or
  \<open>LONG_MAX\<close>. The cast to \<open>int\<close> keeps the low 32 bits, read as two's complement. The
  assignment to the \<open>unsigned int\<close> \<open>polling_interval\<close> converts modulo \<open>2 ^ 32\<close>,
  which is \<open>word_of_int\<close>.
\<close>

definition LONG_MAX :: int where
  "LONG_MAX = 9223372036854775807"

definition LONG_MIN :: int where
  "LONG_MIN = - 9223372036854775808"

definition strtol :: "string \<Rightarrow> int" where
  "strtol s =
     (let s1 = dropWhile isspace s;
          neg = (s1 \<noteq> [] \<and> hd s1 = CHR ''-'');
          s2 = (if s1 \<noteq> [] \<and> (hd s1 = CHR ''-'' \<or> hd s1 = CHR ''+'') then tl s1 else s1);
          n = digits_val 0 (takeWhile isdigit s2)
      in if neg then (if - n < LONG_MIN then LONG_MIN else - n)
         else (if LONG_MAX < n then LONG_MAX else n))"

definition atoi :: "string \<Rightarrow> int" where
  "atoi s = sint (word_of_int (strtol s) :: 32 word)"

text \<open>
  What \<open>getopt(argc, argv, "t:")\<close> returns, call after call, until \<open>-1\<close>: the option
  \<open>t\<close> with its argument \<open>optarg\<close>, or anything else (the \<open>default\<close> case). The
  message that \<open>getopt\<close> itself prints for an unknown option is not recorded.
\<close>

datatype getopt_result = Opt_t string | Opt_other

text \<open>
  The option loop of \<open>main\<close>. \<open>Inl\<close> is an exit of the process, with the lines written
  and the status; \<open>Inr\<close> is the value of \<open>polling_interval\<close> after the loop.
\<close>

fun parse_opts :: "string \<Rightarrow> getopt_result list \<Rightarrow> uint \<Rightarrow> (out_line list \<times> int) + uint" where
  "parse_opts progname [] polling_interval = Inr polling_interval"
| "parse_opts progname (Opt_t optarg # rest) polling_interval =
     (if (word_of_int (atoi optarg) :: uint) < 1
      then Inl ([output_error optarg ''Invalid polling interval''], 1)
      else parse_opts progname rest (word_of_int (atoi optarg)))"
| "parse_opts progname (Opt_other # rest) polling_interval = Inl ([Usage progname], 1)"

text \<open>
  \<open>interface_exists\<close>: \<open>stat\<close> on the path, which \<open>snprintf\<close> cuts to 63 characters.
  \<open>stat_ok\<close> says for which paths \<open>stat\<close> returns 0.
\<close>

definition interface_exists :: "(string \<Rightarrow> bool) \<Rightarrow> string \<Rightarrow> bool" where
  "interface_exists stat_ok nm = stat_ok (take 63 (''/sys/class/net/'' @ nm))"

text \<open>The validation loop over the filter: the first name that does not exist, if any.\<close>

fun validate_filter :: "(string \<Rightarrow> bool) \<Rightarrow> string list \<Rightarrow> string option" where
  "validate_filter stat_ok [] = None"
| "validate_filter stat_ok (f # fs) =
     (if \<not> interface_exists stat_ok f then Some f else validate_filter stat_ok fs)"

text \<open>The local variables of \<open>main\<close> that live across iterations of the polling loop.\<close>

record state =
  prev_interfaces :: "interface_t list"
  curr_interfaces :: "interface_t list"
  prev_count :: int

text \<open>
  \<open>memcpy(prev_interfaces, curr_interfaces, sizeof(interface_t) * curr_count)\<close>: the
  first \<open>curr_count\<close> slots are overwritten, the others keep their content.
\<close>

definition memcpy_interfaces :: "interface_t list \<Rightarrow> interface_t list \<Rightarrow> nat \<Rightarrow> interface_t list" where
  "memcpy_interfaces dst src n = take n src @ drop n dst"

text \<open>
  One iteration of \<open>while (true)\<close>, after the \<open>sleep\<close> (which changes no variable):
  the new state and the lines written. \<open>src\<close> is what \<open>fopen\<close> finds in this cycle.
\<close>

definition loop_step :: "uint \<Rightarrow> string list \<Rightarrow> state \<Rightarrow> string option \<Rightarrow> state \<times> out_line list" where
  "loop_step polling_interval interface_filter st src =
     (case read_interfaces interface_filter src (curr_interfaces st) of
        (curr_count, cur, outs) \<Rightarrow>
          if curr_count \<le> 0 then (st\<lparr>curr_interfaces := cur\<rparr>, outs)
          else
            (\<lparr>prev_interfaces = memcpy_interfaces (prev_interfaces st) cur (nat curr_count),
              curr_interfaces = cur,
              prev_count = curr_count\<rparr>,
             outs @
             (if 0 < prev_count st
              then [calculate_and_output_rates (prev_interfaces st) cur curr_count polling_interval]
              else [])))"

text \<open>
  The loop never ends by itself. A run is observed for the cycles in which the sources
  \<open>srcs\<close> were found, one after the other, up to the moment the process is killed.
\<close>

fun run_loop :: "uint \<Rightarrow> string list \<Rightarrow> state \<Rightarrow> string option list \<Rightarrow> state \<times> out_line list" where
  "run_loop polling_interval interface_filter st [] = (st, [])"
| "run_loop polling_interval interface_filter st (src # srcs) =
     (case loop_step polling_interval interface_filter st src of
        (st', outs) \<Rightarrow>
          (case run_loop polling_interval interface_filter st' srcs of
             (st'', outs') \<Rightarrow> (st'', outs @ outs')))"

text \<open>
  \<open>main\<close>. The arguments are the program name, the results of \<open>getopt\<close>, the
  positional arguments \<open>argv[optind..]\<close>, the file system as \<open>stat\<close> sees it and the
  sources of the successive reads. The result is the exit status (\<open>None\<close> while the
  process is still in its loop, or before its first read) and all lines written.
\<close>

definition main ::
    "string \<Rightarrow> getopt_result list \<Rightarrow> string list \<Rightarrow> (string \<Rightarrow> bool) \<Rightarrow> string option list
     \<Rightarrow> int option \<times> out_line list" where
  "main progname opts positional stat_ok srcs =
     (case parse_opts progname opts 1 of
        Inl (outs, status) \<Rightarrow> (Some status, outs)
      | Inr polling_interval \<Rightarrow>
          (case validate_filter stat_ok positional of
             Some f \<Rightarrow> (Some 1, [output_error f ''Interface does not exist''])
           | None \<Rightarrow>
               (case srcs of
                  [] \<Rightarrow> (None, [])
                | src # rest \<Rightarrow>
                    (case read_interfaces positional src zero_interfaces of
                       (count, prev, outs) \<Rightarrow>
                         if count \<le> 0 then (Some 1, outs)
                         else
                           (case run_loop polling_interval positional
                                   \<lparr>prev_interfaces = prev, curr_interfaces = zero_interfaces,
                                    prev_count = count\<rparr> rest of
                              (st, outs') \<Rightarrow> (None, outs @ outs'))))))"

subsection \<open>The formatter of the specification, for the unit K\<close>

text \<open>
  The specification words the output for \<open>1000 \<le> b < 1000000\<close> as \<open>b / 1000\<close> rounded
  to one decimal place, followed by \<open>K\<close>. These definitions follow those words, on the
  exact quotient, as a number of tenths, for the three usual treatments of a value that
  lies half-way between two tenths: up, to the even neighbour, down. \<open>spec_kilo\<close>
  prints a number of tenths.
\<close>

definition spec_tenths_half_up :: "int \<Rightarrow> int" where
  "spec_tenths_half_up b = (b + 50) div 100"

definition spec_tenths_half_even :: "int \<Rightarrow> int" where
  "spec_tenths_half_even b = round_half_even (of_int b / 100)"

definition spec_tenths_half_down :: "int \<Rightarrow> int" where
  "spec_tenths_half_down b = (b + 49) div 100"

definition spec_kilo :: "int \<Rightarrow> string" where
  "spec_kilo t = dec_string (t div 10) @ ''.'' @ [digit_char (nat (t mod 10))] @ ''K''"

subsection \<open>Sample inputs\<close>

text \<open>
  Contents of \<^verbatim>\<open>/proc/net/dev\<close> in the format of the kernel (two header lines, then
  one line for each interface with 16 counters), with short headers.
\<close>

definition sample_header :: string where
  "sample_header =
     ''Inter-|   Receive  |  Transmit'' @ nl @ '' face |bytes packets|bytes packets'' @ nl"

definition sample_first :: string where
  "sample_first = sample_header
     @ ''    lo: 100 1 0 0 0 0 0 0 100 1 0 0 0 0 0 0'' @ nl
     @ ''  eth0: 1000 5 0 0 0 0 0 0 500 5 0 0 0 0 0 0'' @ nl
     @ '' wlan0: 2000 5 0 0 0 0 0 0 1000 5 0 0 0 0 0 0'' @ nl
     @ ''docker0: 7 1 0 0 0 0 0 0 7 1 0 0 0 0 0 0'' @ nl"

definition sample_wlan_only :: string where
  "sample_wlan_only = sample_header
     @ ''    lo: 100 1 0 0 0 0 0 0 100 1 0 0 0 0 0 0'' @ nl
     @ '' wlan0: 5000 5 0 0 0 0 0 0 3000 5 0 0 0 0 0 0'' @ nl"

definition sample_eth_only :: string where
  "sample_eth_only = sample_header
     @ ''  eth0: 2000 5 0 0 0 0 0 0 1000 5 0 0 0 0 0 0'' @ nl"

definition sample_second :: string where
  "sample_second = sample_header
     @ ''    lo: 100 1 0 0 0 0 0 0 100 1 0 0 0 0 0 0'' @ nl
     @ ''  eth0: 3000 5 0 0 0 0 0 0 1500 5 0 0 0 0 0 0'' @ nl
     @ '' wlan0: 6000 5 0 0 0 0 0 0 4000 5 0 0 0 0 0 0'' @ nl"

definition sample_no_match :: string where
  "sample_no_match = sample_header
     @ ''    lo: 100 1 0 0 0 0 0 0 100 1 0 0 0 0 0 0'' @ nl
     @ ''docker0: 7 1 0 0 0 0 0 0 7 1 0 0 0 0 0 0'' @ nl"

text \<open>One interface line, as \<open>fgets\<close> returns it.\<close>

definition sample_line :: string where
  "sample_line = ''  eth0: 1000 5 0 0 0 0 0 0 500 5 0 0 0 0 0 0'' @ nl"

text \<open>The state of the loop after a first read that found \<open>eth0\<close> alone.\<close>

definition sample_state :: state where
  "sample_state =
     \<lparr>prev_interfaces = zero_interfaces[0 := \<lparr>name = ''eth0'', rx_bytes = 1000, tx_bytes = 500\<rparr>],
      curr_interfaces = zero_interfaces,
      prev_count = 1\<rparr>"

text \<open>A host on which every path exists.\<close>

definition stat_all :: "string \<Rightarrow> bool" where
  "stat_all path = True"

section \<open>Properties\<close>

subsection \<open>The inner loop finds the first equal name among the first \<open>count\<close> slots\<close>

lemma inner_loop_no_match:
  "(\<And>k. i \<le> k \<Longrightarrow> k < count \<Longrightarrow> name c \<noteq> name (prev ! k)) \<Longrightarrow>
   inner_loop prev c p count i = None"
proof (induction prev c p count i rule: inner_loop.induct)
  case (1 prev c p count j)
  show ?case
  proof (cases "j < count")
    case True
    with "1.prems" [of j] have ne: "name c \<noteq> name (prev ! j)" by simp
    have "inner_loop prev c p count (Suc j) = None"
      using True ne "1.prems" by (intro "1.IH") auto
    with True ne show ?thesis by (subst inner_loop.simps) simp
  next
    case False
    then show ?thesis by (subst inner_loop.simps) simp
  qed
qed

lemma inner_loop_first_match:
  "i \<le> j \<Longrightarrow> j < count \<Longrightarrow> name c = name (prev ! j) \<Longrightarrow>
   (\<And>k. i \<le> k \<Longrightarrow> k < j \<Longrightarrow> name c \<noteq> name (prev ! k)) \<Longrightarrow>
   inner_loop prev c p count i =
     Some ((rx_bytes c - rx_bytes (prev ! j)) div ucast p,
           (tx_bytes c - tx_bytes (prev ! j)) div ucast p)"
proof (induction prev c p count i rule: inner_loop.induct)
  case (1 prev c p count i)
  show ?case
  proof (cases "i = j")
    case True
    with "1.prems" show ?thesis by (subst inner_loop.simps) simp
  next
    case False
    with "1.prems" have lt: "i < j" by simp
    with "1.prems" have ne: "name c \<noteq> name (prev ! i)" by simp
    from lt "1.prems" have ic: "i < count" by simp
    have "inner_loop prev c p count (Suc i) =
      Some ((rx_bytes c - rx_bytes (prev ! j)) div ucast p,
            (tx_bytes c - tx_bytes (prev ! j)) div ucast p)"
      using ic ne lt "1.prems" by (intro "1.IH") auto
    with ic ne show ?thesis by (subst inner_loop.simps) simp
  qed
qed

subsection \<open>Unsigned arithmetic of the rates\<close>

lemma uint_rate:
  fixes a b :: ull and p :: uint
  shows "uint ((a - b) div ucast p) = ((uint a - uint b) mod 2 ^ 64) div uint p"
  by (simp add: uint_div uint_word_ariths uint_up_ucast is_up)

lemma uint_wrap:
  fixes a b :: ull
  assumes "a < b"
  shows "uint (a - b) = 2 ^ 64 - (uint b - uint a)"
proof -
  have lt: "uint a < uint b" using assms by (simp add: word_less_def)
  have b: "uint b < 2 ^ 64" using uint_lt2p [of b] by simp
  have "uint (a - b) = (uint a - uint b) mod 2 ^ 64" by (simp add: uint_word_ariths)
  also have "\<dots> = (uint a - uint b + 2 ^ 64) mod 2 ^ 64" by simp
  also have "\<dots> = uint a - uint b + 2 ^ 64"
  proof (rule mod_pos_pos_trivial)
    show "0 \<le> uint a - uint b + 2 ^ 64" using uint_ge_0 [of a] b by linarith
    show "uint a - uint b + 2 ^ 64 < 2 ^ 64" using lt by linarith
  qed
  finally show ?thesis by simp
qed

text \<open>
  C1 (evaluation at the failing input). The retained previous snapshot holds \<open>eth0\<close>
  and \<open>wlan0\<close> (two entries); the current one holds only \<open>wlan0\<close>, whose counters grew
  by 3000 and 2000 bytes. The loop over \<open>prev\<close> is bounded by the current count 1, so it
  looks at \<open>eth0\<close> alone, finds no match and reports the totals 0 and 0. The same
  happens in a run of \<open>main\<close> whose second read no longer lists \<open>eth0\<close>. In the other
  direction, when the previous snapshot is the shorter one, the loop reads a slot that
  an older snapshot left behind: after the reads \<open>eth0, wlan0\<close>, then \<open>eth0\<close>, then
  \<open>eth0, wlan0\<close>, the third cycle adds a rate for \<open>wlan0\<close>, which the previous
  snapshot does not hold (5000 and 3500 are written, \<open>eth0\<close> alone gives 1000 and 500).
\<close>

theorem C1_scan_bounded_by_current_count:
  "calculate_rates
     (zero_interfaces[0 := \<lparr>name = ''eth0'', rx_bytes = 1000, tx_bytes = 500\<rparr>,
                      1 := \<lparr>name = ''wlan0'', rx_bytes = 2000, tx_bytes = 1000\<rparr>])
     (zero_interfaces[0 := \<lparr>name = ''wlan0'', rx_bytes = 5000, tx_bytes = 3000\<rparr>]) 1 1 = (0, 0)
   \<and> main ''netspeed'' [] [] stat_all [Some sample_first, Some sample_wlan_only]
       = (None, [Json ''0B'' ''0B''])
   \<and> main ''netspeed'' [] [] stat_all [Some sample_first, Some sample_eth_only, Some sample_second]
       = (None, [Json ''1.0K'' ''500B'', Json ''5.0K'' ''3.5K''])
   \<and> main ''netspeed'' [] [] stat_all [Some sample_eth_only, Some sample_second]
       = (None, [Json ''1.0K'' ''500B''])"
  by code_simp

text \<open>
  C5: for a current entry \<open>c\<close> whose first equal name among the scanned slots of \<open>prev\<close>
  is at \<open>j\<close>, and a polling interval of at least 1, the two rates are
  \<open>(c.rx - prev[j].rx) / interval\<close> and \<open>(c.tx - prev[j].tx) / interval\<close> in unsigned
  64-bit arithmetic: the difference is taken modulo \<open>2 ^ 64\<close>, then divided. When the
  current counter is below the previous one the difference is \<open>2 ^ 64\<close> minus the drop,
  and a value is still returned. Previous \<open>{rx:1000, tx:500}\<close>, current
  \<open>{rx:3000, tx:1500}\<close> and interval 2 give the totals 1000 and 500.
\<close>

theorem C5_matched_pair_rate:
  fixes p :: uint
  assumes "0 < p" and "j < count" and "name c = name (prev ! j)"
    and "\<forall>k<j. name c \<noteq> name (prev ! k)"
  shows
   "inner_loop prev c p count 0 =
      Some ((rx_bytes c - rx_bytes (prev ! j)) div ucast p,
            (tx_bytes c - tx_bytes (prev ! j)) div ucast p)
    \<and> uint ((rx_bytes c - rx_bytes (prev ! j)) div ucast p)
        = ((uint (rx_bytes c) - uint (rx_bytes (prev ! j))) mod 2 ^ 64) div uint p
    \<and> uint ((tx_bytes c - tx_bytes (prev ! j)) div ucast p)
        = ((uint (tx_bytes c) - uint (tx_bytes (prev ! j))) mod 2 ^ 64) div uint p
    \<and> (rx_bytes c < rx_bytes (prev ! j) \<longrightarrow>
         uint (rx_bytes c - rx_bytes (prev ! j))
           = 2 ^ 64 - (uint (rx_bytes (prev ! j)) - uint (rx_bytes c)))
    \<and> (tx_bytes c < tx_bytes (prev ! j) \<longrightarrow>
         uint (tx_bytes c - tx_bytes (prev ! j))
           = 2 ^ 64 - (uint (tx_bytes (prev ! j)) - uint (tx_bytes c)))
    \<and> calculate_rates
         (zero_interfaces[0 := \<lparr>name = ''eth0'', rx_bytes = 1000, tx_bytes = 500\<rparr>])
         (zero_interfaces[0 := \<lparr>name = ''eth0'', rx_bytes = 3000, tx_bytes = 1500\<rparr>]) 1 2
        = (1000, 500)"
proof -
  have m: "inner_loop prev c p count 0 =
      Some ((rx_bytes c - rx_bytes (prev ! j)) div ucast p,
            (tx_bytes c - tx_bytes (prev ! j)) div ucast p)"
    using assms by (intro inner_loop_first_match) auto
  have e: "calculate_rates
         (zero_interfaces[0 := \<lparr>name = ''eth0'', rx_bytes = 1000, tx_bytes = 500\<rparr>])
         (zero_interfaces[0 := \<lparr>name = ''eth0'', rx_bytes = 3000, tx_bytes = 1500\<rparr>]) 1 2
        = (1000, 500)"
    by code_simp
  show ?thesis
    using m e uint_rate uint_wrap by blast
qed

theorem C5_matched_pair_rate_witness:
  "inner_loop [\<lparr>name = ''eth0'', rx_bytes = 1000, tx_bytes = 500\<rparr>]
       \<lparr>name = ''eth0'', rx_bytes = 400, tx_bytes = 1500\<rparr> 2 1 0
     = Some (9223372036854775508, 500)
   \<and> uint ((400 :: ull) - 1000) = 2 ^ 64 - 600"
  using C5_matched_pair_rate [of 2 0 1 "\<lparr>name = ''eth0'', rx_bytes = 400, tx_bytes = 1500\<rparr>"
      "[\<lparr>name = ''eth0'', rx_bytes = 1000, tx_bytes = 500\<rparr>]"]
  by simp

subsection \<open>Human-readable formatter\<close>

lemma round_half_even_of_int: "round_half_even (of_int m) = m"
  by (simp add: round_half_even_def)

lemma round_half_even_error: "\<bar>of_int (round_half_even x) - x\<bar> \<le> 1 / 2"
proof -
  have "of_int \<lfloor>x\<rfloor> \<le> x" "x < of_int \<lfloor>x\<rfloor> + 1" by linarith+
  then show ?thesis
    by (auto simp: round_half_even_def Let_def)
qed

lemma pow2_nonpos: "e \<le> 0 \<Longrightarrow> pow2 e = 1 / 2 ^ nat (- e)"
  by (cases "e = 0") (simp_all add: pow2_def)

lemma to_double_exact:
  assumes "0 < n" and "n < 2 ^ 53"
  shows "to_double (of_int n) = of_int n"
proof -
  have "bitlen n \<le> 53" using assms by (simp add: bitlen_le_iff_power)
  then have e: "bitlen n - 53 \<le> 0" by simp
  define k where "k = nat (- (bitlen n - 53))"
  have p: "pow2 (bitlen n - 53) = 1 / 2 ^ k" using pow2_nonpos [OF e] by (simp add: k_def)
  have "(of_int n :: rat) / (1 / 2 ^ k) = of_int (n * 2 ^ k)" by simp
  then have "round_half_even (of_int n / (1 / 2 ^ k)) = n * 2 ^ k"
    by (simp only: round_half_even_of_int)
  then show ?thesis by (simp add: to_double_def p)
qed

lemma to_double_error:
  assumes "1 \<le> q" and "q < 1024"
  shows "\<bar>to_double q - q\<bar> \<le> 1 / 2 ^ 44"
proof -
  have f1: "1 \<le> \<lfloor>q\<rfloor>" using assms by (simp add: le_floor_iff)
  have f2: "\<lfloor>q\<rfloor> < 2 ^ 10" using assms by (simp add: floor_less_iff)
  have "bitlen \<lfloor>q\<rfloor> \<le> 10" using f2 by (simp add: bitlen_le_iff_power)
  then have e: "bitlen \<lfloor>q\<rfloor> - 53 \<le> - 43" by simp
  define k where "k = nat (- (bitlen \<lfloor>q\<rfloor> - 53))"
  have k: "43 \<le> k" using e by (simp add: k_def)
  have p: "pow2 (bitlen \<lfloor>q\<rfloor> - 53) = 1 / 2 ^ k"
    using pow2_nonpos [of "bitlen \<lfloor>q\<rfloor> - 53"] e by (simp add: k_def)
  have td: "to_double q = of_int (round_half_even (q * 2 ^ k)) / 2 ^ k"
    by (simp add: to_double_def p)
  have "\<bar>to_double q - q\<bar> = \<bar>of_int (round_half_even (q * 2 ^ k)) - q * 2 ^ k\<bar> / 2 ^ k"
    by (simp add: td field_simps)
  also have "\<dots> \<le> (1 / 2) / 2 ^ k"
    by (rule divide_right_mono [OF round_half_even_error]) simp
  also have "\<dots> \<le> (1 / 2) / 2 ^ 43"
  proof (rule divide_left_mono)
    show "(2::rat) ^ 43 \<le> 2 ^ k" using k by (rule power_increasing) simp
    show "0 \<le> (1 / 2 :: rat)" by simp
    show "0 < (2::rat) ^ k * 2 ^ 43" by simp
  qed
  finally show ?thesis by simp
qed

lemma below_ten: "(d::nat) < 10 \<Longrightarrow> d \<in> {0, 1, 2, 3, 4, 5, 6, 7, 8, 9}"
  by auto

lemma digit_char_isdigit: "d < 10 \<Longrightarrow> isdigit (digit_char d)"
  by (drule below_ten) (auto simp: digit_char_def isdigit_def)

lemma digit_val_digit_char: "d < 10 \<Longrightarrow> digit_val (digit_char d) = int d"
  by (drule below_ten) (auto simp: digit_char_def digit_val_def)

lemma list_all_isdigit_dec_string: "0 \<le> n \<Longrightarrow> list_all isdigit (dec_string n)"
proof (induction n rule: dec_string.induct)
  case (1 n)
  show ?case
  proof (cases "n < 10")
    case True
    with "1.prems" have "nat n < 10" by simp
    then have "isdigit (digit_char (nat n))" by (rule digit_char_isdigit)
    with True show ?thesis by (subst dec_string.simps) simp
  next
    case False
    then have "0 \<le> n div 10" by simp
    with False "1.IH" have ih: "list_all isdigit (dec_string (n div 10))" by simp
    have "nat (n mod 10) < 10" by simp
    then have "isdigit (digit_char (nat (n mod 10)))" by (rule digit_char_isdigit)
    with False ih show ?thesis by (subst dec_string.simps) simp
  qed
qed

lemma digits_val_snoc: "digits_val acc (xs @ [c]) = 10 * digits_val acc xs + digit_val c"
  by (induction xs arbitrary: acc) simp_all

lemma digits_val_dec_string: "0 \<le> n \<Longrightarrow> digits_val 0 (dec_string n) = n"
proof (induction n rule: dec_string.induct)
  case (1 n)
  show ?case
  proof (cases "n < 10")
    case True
    with "1.prems" have "nat n < 10" by simp
    then have "digit_val (digit_char (nat n)) = int (nat n)" by (rule digit_val_digit_char)
    with True "1.prems" show ?thesis by (subst dec_string.simps) simp
  next
    case False
    then have "0 \<le> n div 10" by simp
    with False "1.IH" have ih: "digits_val 0 (dec_string (n div 10)) = n div 10" by simp
    have "nat (n mod 10) < 10" by simp
    then have "digit_val (digit_char (nat (n mod 10))) = int (nat (n mod 10))"
      by (rule digit_val_digit_char)
    with False ih show ?thesis by (subst dec_string.simps) (simp add: digits_val_snoc)
  qed
qed

lemma length_dec_string: "0 < k \<Longrightarrow> n < 10 ^ k \<Longrightarrow> length (dec_string n) \<le> k"
proof (induction k arbitrary: n)
  case 0
  then show ?case by simp
next
  case (Suc k)
  show ?case
  proof (cases "n < 10")
    case True
    then show ?thesis by (subst dec_string.simps) simp
  next
    case False
    with Suc.prems have k: "0 < k" by (cases k) auto
    from Suc.prems have "n div 10 < 10 ^ k" by (simp add: div_less_iff_less_mult mult.commute)
    from Suc.IH [OF k this] False show ?thesis by (subst dec_string.simps) simp
  qed
qed

lemma dot_not_digit: "isdigit c \<Longrightarrow> c \<noteq> CHR ''.'' \<and> c \<noteq> CHR ''B''"
  by (auto simp: isdigit_def)

lemma format_small:
  assumes "uint b < 1000"
  shows "format_human_readable b = dec_string (uint b) @ ''B''"
proof -
  have "length (dec_string (uint b)) \<le> 3"
    using assms by (intro length_dec_string) simp_all
  then show ?thesis
    using assms by (simp add: format_human_readable_def DECIMAL_BASE_def units_def)
qed

lemma format_kilo:
  assumes lo: "1000 \<le> uint b" and hi: "uint b < 1000000"
  shows "format_human_readable b
           = dec_string (tenths (to_double (of_int (uint b) / 1000)) div 10) @ ''.''
             @ [digit_char (nat (tenths (to_double (of_int (uint b) / 1000)) mod 10))] @ ''K''
         \<and> \<bar>100 * tenths (to_double (of_int (uint b) / 1000)) - uint b\<bar> \<le> 50"
proof -
  define n where "n = uint b"
  define q :: rat where "q = of_int n / 1000"
  define v where "v = to_double q"
  define t where "t = tenths v"
  have n: "1000 \<le> n" "n < 1000000" using lo hi by (simp_all add: n_def)
  have ex: "to_double (of_int n) = of_int n"
    using n by (intro to_double_exact) simp_all
  have q1: "1 \<le> q" using n by (simp add: q_def)
  have q2: "q \<le> 999999 / 1000" using n by (simp add: q_def)
  have err: "\<bar>v - q\<bar> \<le> 1 / 2 ^ 44"
    unfolding v_def using q1 q2 by (intro to_double_error) simp_all
  have small: "(1::rat) / 2 ^ 44 < 1 / 1000" by simp
  have "v - q \<le> \<bar>v - q\<bar>" by simp
  with err small q2 have v2: "v < 1000" by linarith
  have rt: "\<bar>of_int t - 10 * v\<bar> \<le> 1 / 2"
    unfolding t_def tenths_def by (rule round_half_even_error)
  have qn: "of_int n = 1000 * q" by (simp add: q_def)
  from rt have r1: "of_int t - 10 * v \<le> 1 / 2" and r2: "- (1 / 2) \<le> of_int t - 10 * v"
    by (simp_all only: abs_le_iff) linarith+
  from err have e1: "v - q \<le> 1 / 2 ^ 44" and e2: "- (1 / 2 ^ 44) \<le> v - q"
    by (simp_all only: abs_le_iff) linarith+
  have u: "100 * of_int t - of_int n < (51::rat)" using r1 e1 small qn by linarith
  have l: "- (51::rat) < 100 * of_int t - of_int n" using r2 e2 small qn by linarith
  from u have "(of_int (100 * t - n) :: rat) < of_int 51" by simp
  then have u': "100 * t - n < 51" by (simp only: of_int_less_iff)
  from l have "(of_int (- 51) :: rat) < of_int (100 * t - n)" by simp
  then have l': "- 51 < 100 * t - n" by (simp only: of_int_less_iff)
  from u' l' have "\<bar>100 * t - n\<bar> < 51" by linarith
  then have close: "\<bar>100 * t - n\<bar> \<le> 50" by simp
  from close n have t1: "10 \<le> t" and t2: "t \<le> 10000" by linarith+
  have "t div 10 < 10 ^ 4" using t2 by simp
  then have len: "length (dec_string (t div 10)) \<le> 4"
    by (intro length_dec_string) simp_all
  have s1: "scale_loop (of_int n) 0 = scale_loop v 1"
    using n by (subst scale_loop.simps) (simp add: DECIMAL_BASE_def num_units_def units_def v_def q_def)
  have s2: "scale_loop v 1 = (v, 1)"
    using v2 by (subst scale_loop.simps) (simp add: DECIMAL_BASE_def)
  have "format_human_readable b
          = take 15 (dec_string (t div 10) @ ''.'' @ [digit_char (nat (t mod 10))] @ ''K'')"
    using n ex s1 s2
    by (simp add: format_human_readable_def DECIMAL_BASE_def n_def [symmetric] format_fixed1_def
        t_def units_def)
  with len have "format_human_readable b
          = dec_string (t div 10) @ ''.'' @ [digit_char (nat (t mod 10))] @ ''K''"
    by simp
  with close show ?thesis by (simp add: t_def v_def q_def n_def)
qed

lemma round_half_even_below:
  "of_int f \<le> x \<Longrightarrow> x < of_int f + 1 / 2 \<Longrightarrow> round_half_even x = f"
proof -
  assume a: "of_int f \<le> x" "x < of_int f + 1 / 2"
  then have "\<lfloor>x\<rfloor> = f" by (intro floor_unique) simp_all
  with a show ?thesis by (simp add: round_half_even_def Let_def)
qed

lemma round_half_even_above:
  "of_int f + 1 / 2 < x \<Longrightarrow> x < of_int f + 1 \<Longrightarrow> round_half_even x = f + 1"
proof -
  assume a: "of_int f + 1 / 2 < x" "x < of_int f + 1"
  then have "\<lfloor>x\<rfloor> = f" by (intro floor_unique) simp_all
  with a show ?thesis by (simp add: round_half_even_def Let_def)
qed

lemma round_half_even_tie:
  "x = of_int f + 1 / 2 \<Longrightarrow> round_half_even x = (if even f then f else f + 1)"
proof -
  assume a: "x = of_int f + 1 / 2"
  then have "\<lfloor>x\<rfloor> = f" by (intro floor_unique) simp_all
  with a show ?thesis by (simp add: round_half_even_def Let_def)
qed

lemma to_double_scaled:
  assumes "1 \<le> q" and "q < 1024"
  shows "\<exists>k\<ge>43. to_double q = of_int (round_half_even (q * 2 ^ k)) / 2 ^ k"
proof -
  have f2: "\<lfloor>q\<rfloor> < 2 ^ 10" using assms by (simp add: floor_less_iff)
  have "bitlen \<lfloor>q\<rfloor> \<le> 10" using f2 by (simp add: bitlen_le_iff_power)
  then have e: "bitlen \<lfloor>q\<rfloor> - 53 \<le> - 43" by simp
  define k where "k = nat (- (bitlen \<lfloor>q\<rfloor> - 53))"
  have k: "43 \<le> k" using e by (simp add: k_def)
  have p: "pow2 (bitlen \<lfloor>q\<rfloor> - 53) = 1 / 2 ^ k"
    using pow2_nonpos [of "bitlen \<lfloor>q\<rfloor> - 53"] e by (simp add: k_def)
  have "to_double q = of_int (round_half_even (q * 2 ^ k)) / 2 ^ k"
    by (simp add: to_double_def p)
  with k show ?thesis by blast
qed

lemma to_double_quarters:
  assumes "1 \<le> q" and "q < 1024" and m: "q = of_int m / 4"
  shows "to_double q = q"
proof -
  from to_double_scaled [OF assms(1,2)] obtain k where k: "43 \<le> k"
    and td: "to_double q = of_int (round_half_even (q * 2 ^ k)) / 2 ^ k" by blast
  define j where "j = k - 2"
  have j: "k = j + 2" using k by (simp add: j_def)
  have "q * 2 ^ k = of_int (m * 2 ^ j)" by (simp add: m j)
  then have "round_half_even (q * 2 ^ k) = m * 2 ^ j" by (simp only: round_half_even_of_int)
  with td show ?thesis by (simp add: m j)
qed

lemma tenths_on_tie:
  assumes lo: "1000 \<le> n" and hi: "n < 1000000" and tie: "n mod 100 = 50"
  shows "(to_double (of_int n / 1000) < of_int n / 1000 \<longrightarrow>
            tenths (to_double (of_int n / 1000)) = n div 100)
       \<and> (of_int n / 1000 < to_double (of_int n / 1000) \<longrightarrow>
            tenths (to_double (of_int n / 1000)) = n div 100 + 1)
       \<and> (to_double (of_int n / 1000) = of_int n / 1000 \<longrightarrow>
            tenths (to_double (of_int n / 1000))
              = (if even (n div 100) then n div 100 else n div 100 + 1))"
proof -
  define q :: rat where "q = of_int n / 1000"
  define v where "v = to_double q"
  define f where "f = n div 100"
  have "n = 100 * f + n mod 100" by (simp add: f_def)
  with tie have n: "n = 100 * f + 50" by simp
  have q10: "10 * q = of_int f + 1 / 2" by (simp add: q_def n)
  have q1: "1 \<le> q" using lo by (simp add: q_def)
  have q2: "q < 1024" using hi by (simp add: q_def)
  have err: "\<bar>v - q\<bar> \<le> 1 / 2 ^ 44"
    unfolding v_def using q1 q2 by (rule to_double_error)
  have small: "10 * ((1::rat) / 2 ^ 44) < 1 / 2" by simp
  from err have e1: "v - q \<le> 1 / 2 ^ 44" and e2: "- (1 / 2 ^ 44) \<le> v - q"
    by (simp_all only: abs_le_iff) linarith+
  have below: "tenths v = f" if "v < q"
  proof -
    have "of_int f \<le> 10 * v" using e2 small q10 by linarith
    moreover have "10 * v < of_int f + 1 / 2" using that q10 by linarith
    ultimately show ?thesis unfolding tenths_def by (rule round_half_even_below)
  qed
  have above: "tenths v = f + 1" if "q < v"
  proof -
    have "of_int f + 1 / 2 < 10 * v" using that q10 by linarith
    moreover have "10 * v < of_int f + 1" using e1 small q10 by linarith
    ultimately show ?thesis unfolding tenths_def by (rule round_half_even_above)
  qed
  have exact: "tenths v = (if even f then f else f + 1)" if "v = q"
  proof -
    from that q10 have "10 * v = of_int f + 1 / 2" by simp
    then show ?thesis unfolding tenths_def by (rule round_half_even_tie)
  qed
  from below above exact show ?thesis
    unfolding v_def q_def f_def by blast
qed

lemma quotient_exact:
  assumes lo: "1000 \<le> n" and hi: "n < 1000000" and m: "n mod 500 = 250"
  shows "to_double (of_int n / 1000) = of_int n / 1000"
proof -
  have "n = 500 * (n div 500) + n mod 500" by simp
  with m have n: "n = 500 * (n div 500) + 250" by simp
  have "(of_int n :: rat) / 1000 = of_int (2 * (n div 500) + 1) / 4"
    by (subst n) simp
  moreover have "1 \<le> (of_int n :: rat) / 1000" using lo by simp
  moreover have "(of_int n :: rat) / 1000 < 1024" using hi by simp
  ultimately show ?thesis by (intro to_double_quarters) 
qed

text \<open>
  C6 (the claim as stated fails): for \<open>b = 1150\<close> the quotient \<open>1.15\<close> lies half-way
  between two tenths and rounds to \<open>1.2\<close>, upwards as well as to the even neighbour; the
  formatter writes \<open>1.1K\<close>. For \<open>b = 1050\<close> it writes \<open>1.1K\<close>, where rounding
  downwards gives \<open>1.0\<close>. So no treatment of the half-way values on the exact quotient
  gives the output of the code.
\<close>

theorem C6_counterexample:
  "format_human_readable 1150 = ''1.1K''
   \<and> spec_kilo (spec_tenths_half_up 1150) = ''1.2K''
   \<and> spec_kilo (spec_tenths_half_even 1150) = ''1.2K''
   \<and> format_human_readable 1150 \<noteq> spec_kilo (spec_tenths_half_up 1150)
   \<and> format_human_readable 1150 \<noteq> spec_kilo (spec_tenths_half_even 1150)
   \<and> format_human_readable 1050 = ''1.1K''
   \<and> spec_kilo (spec_tenths_half_down 1050) = ''1.0K''
   \<and> format_human_readable 1050 \<noteq> spec_kilo (spec_tenths_half_down 1050)"
  by code_simp

text \<open>
  C6 (as the code has it): for a byte count \<open>b\<close> below 1000 the formatter gives the decimal
  digits of \<open>b\<close> followed by \<open>B\<close>, with no decimal point. For \<open>1000 \<le> b < 1000000\<close>
  it gives the digits of a whole number, a point, one digit and \<open>K\<close>, and the number of
  tenths \<open>t\<close> so written is within \<open>0.05\<close> of \<open>b / 1000\<close>. When \<open>b / 1000\<close> does not
  lie half-way between two tenths (\<open>b mod 100 \<noteq> 50\<close>), \<open>t\<close> is \<open>b / 1000\<close> rounded to
  one decimal place, \<open>(b + 50) div 100\<close>, whatever the treatment of half-way values.
  When it does, the \<open>double\<close> quotient \<open>b / 1000.0\<close> decides: below the exact quotient
  the lower tenth is written, above it the upper one, and when the quotient is itself a
  \<open>double\<close> (as for \<open>b mod 500 = 250\<close>) the even one. So 1050 and 1150 give \<open>1.1K\<close>,
  1250 gives \<open>1.2K\<close>, 1350 gives \<open>1.4K\<close> and 1750 gives \<open>1.8K\<close>. \<open>format(1000)\<close> is
  \<open>1.0K\<close> and \<open>format(999)\<close> is \<open>999B\<close>.
\<close>

theorem C6_formatter_nearest_tenth:
  "(uint b < 1000 \<longrightarrow>
      format_human_readable b = dec_string (uint b) @ ''B''
      \<and> list_all isdigit (dec_string (uint b))
      \<and> digits_val 0 (dec_string (uint b)) = uint b
      \<and> CHR ''.'' \<notin> set (format_human_readable b))
   \<and> (1000 \<le> uint b \<and> uint b < 1000000 \<longrightarrow>
      (\<exists>t. format_human_readable b
             = dec_string (t div 10) @ ''.'' @ [digit_char (nat (t mod 10))] @ ''K''
           \<and> 0 \<le> t
           \<and> \<bar>100 * t - uint b\<bar> \<le> 50
           \<and> (uint b mod 100 \<noteq> 50 \<longrightarrow>
                 t = (uint b + 50) div 100 \<and> t = spec_tenths_half_up (uint b)
                 \<and> t = spec_tenths_half_even (uint b) \<and> t = spec_tenths_half_down (uint b))
           \<and> (uint b mod 100 = 50
                 \<and> to_double (of_int (uint b) / 1000) < of_int (uint b) / 1000 \<longrightarrow>
                 t = uint b div 100)
           \<and> (uint b mod 100 = 50
                 \<and> of_int (uint b) / 1000 < to_double (of_int (uint b) / 1000) \<longrightarrow>
                 t = uint b div 100 + 1)
           \<and> (uint b mod 100 = 50
                 \<and> to_double (of_int (uint b) / 1000) = of_int (uint b) / 1000 \<longrightarrow>
                 t = (if even (uint b div 100) then uint b div 100 else uint b div 100 + 1))
           \<and> (uint b mod 500 = 250 \<longrightarrow>
                 to_double (of_int (uint b) / 1000) = of_int (uint b) / 1000)
           \<and> list_all isdigit (dec_string (t div 10))
           \<and> digits_val 0 (dec_string (t div 10)) = t div 10
           \<and> isdigit (digit_char (nat (t mod 10)))
           \<and> digit_val (digit_char (nat (t mod 10))) = t mod 10))
   \<and> format_human_readable 1000 = ''1.0K''
   \<and> format_human_readable 999 = ''999B''
   \<and> format_human_readable 1050 = ''1.1K''
   \<and> format_human_readable 1150 = ''1.1K''
   \<and> format_human_readable 1250 = ''1.2K''
   \<and> format_human_readable 1350 = ''1.4K''
   \<and> format_human_readable 1750 = ''1.8K''"
proof -
  have small: "format_human_readable b = dec_string (uint b) @ ''B''
      \<and> list_all isdigit (dec_string (uint b))
      \<and> digits_val 0 (dec_string (uint b)) = uint b
      \<and> CHR ''.'' \<notin> set (format_human_readable b)" if lt: "uint b < 1000"
  proof -
    have d: "list_all isdigit (dec_string (uint b))"
      by (rule list_all_isdigit_dec_string) simp
    then have "CHR ''.'' \<notin> set (dec_string (uint b))"
      using dot_not_digit by (auto simp: list_all_iff)
    with d format_small [OF lt] digits_val_dec_string [of "uint b"] show ?thesis by simp
  qed
  have kilo: "\<exists>t. format_human_readable b
             = dec_string (t div 10) @ ''.'' @ [digit_char (nat (t mod 10))] @ ''K''
           \<and> 0 \<le> t
           \<and> \<bar>100 * t - uint b\<bar> \<le> 50
           \<and> (uint b mod 100 \<noteq> 50 \<longrightarrow>
                 t = (uint b + 50) div 100 \<and> t = spec_tenths_half_up (uint b)
                 \<and> t = spec_tenths_half_even (uint b) \<and> t = spec_tenths_half_down (uint b))
           \<and> (uint b mod 100 = 50
                 \<and> to_double (of_int (uint b) / 1000) < of_int (uint b) / 1000 \<longrightarrow>
                 t = uint b div 100)
           \<and> (uint b mod 100 = 50
                 \<and> of_int (uint b) / 1000 < to_double (of_int (uint b) / 1000) \<longrightarrow>
                 t = uint b div 100 + 1)
           \<and> (uint b mod 100 = 50
                 \<and> to_double (of_int (uint b) / 1000) = of_int (uint b) / 1000 \<longrightarrow>
                 t = (if even (uint b div 100) then uint b div 100 else uint b div 100 + 1))
           \<and> (uint b mod 500 = 250 \<longrightarrow>
                 to_double (of_int (uint b) / 1000) = of_int (uint b) / 1000)
           \<and> list_all isdigit (dec_string (t div 10))
           \<and> digits_val 0 (dec_string (t div 10)) = t div 10
           \<and> isdigit (digit_char (nat (t mod 10)))
           \<and> digit_val (digit_char (nat (t mod 10))) = t mod 10"
    if r: "1000 \<le> uint b \<and> uint b < 1000000"
  proof -
    define t where "t = tenths (to_double (of_int (uint b) / 1000))"
    from r have lo: "1000 \<le> uint b" and hi: "uint b < 1000000" by simp_all
    from r format_kilo [of b]
    have f: "format_human_readable b
             = dec_string (t div 10) @ ''.'' @ [digit_char (nat (t mod 10))] @ ''K''"
      and c: "\<bar>100 * t - uint b\<bar> \<le> 50"
      by (simp_all add: t_def)
    from c r have t0: "0 \<le> t" by linarith
    then have t1: "0 \<le> t div 10" by simp
    have m: "nat (t mod 10) < 10" by simp
    have u: "t = (uint b + 50) div 100 \<and> t = spec_tenths_half_up (uint b)
                 \<and> t = spec_tenths_half_even (uint b) \<and> t = spec_tenths_half_down (uint b)"
      if nt: "uint b mod 100 \<noteq> 50"
    proof -
      have "uint b mod 100 = 50" if "100 * t - uint b = 50"
      proof -
        from that have "uint b = 100 * (t - 1) + 50" by simp
        then show ?thesis by (rule int_mod_pos_eq) simp_all
      qed
      moreover have "uint b mod 100 = 50" if "100 * t - uint b = - 50"
      proof -
        from that have "uint b = 100 * t + 50" by simp
        then show ?thesis by (rule int_mod_pos_eq) simp_all
      qed
      ultimately have ne: "100 * t - uint b \<noteq> 50" "100 * t - uint b \<noteq> - 50"
        using nt by blast+
      with c have r0: "0 \<le> uint b + 50 - 100 * t" and r1: "uint b + 50 - 100 * t < 100"
        by linarith+
      have eq: "uint b + 50 = 100 * t + (uint b + 50 - 100 * t)" by simp
      have up: "(uint b + 50) div 100 = t" by (rule int_div_pos_eq [OF eq r0 r1])
      from ne c have d0: "0 \<le> uint b + 49 - 100 * t" and d1: "uint b + 49 - 100 * t < 100"
        by linarith+
      have eqd: "uint b + 49 = 100 * t + (uint b + 49 - 100 * t)" by simp
      have down: "(uint b + 49) div 100 = t" by (rule int_div_pos_eq [OF eqd d0 d1])
      have even: "round_half_even (of_int (uint b) / 100) = t"
      proof (cases "100 * t \<le> uint b")
        case True
        from r1 have "uint b < 100 * t + 50" by linarith
        then have "(of_int (uint b) :: rat) < of_int (100 * t + 50)" by (simp only: of_int_less_iff)
        then have a: "(of_int (uint b) :: rat) / 100 < of_int t + 1 / 2" by simp
        from True have "(of_int (100 * t) :: rat) \<le> of_int (uint b)" by (simp only: of_int_le_iff)
        then have b: "(of_int t :: rat) \<le> of_int (uint b) / 100" by simp
        from b a show ?thesis by (rule round_half_even_below)
      next
        case False
        from d0 have "100 * t - 50 < uint b" by simp
        then have "100 * (t - 1) + 50 < uint b" by (simp add: algebra_simps)
        then have "(of_int (100 * (t - 1) + 50) :: rat) < of_int (uint b)"
          by (simp only: of_int_less_iff)
        then have a: "(of_int (t - 1) :: rat) + 1 / 2 < of_int (uint b) / 100" by simp
        from False have "uint b < 100 * t" by simp
        then have "(of_int (uint b) :: rat) < of_int (100 * t)" by (simp only: of_int_less_iff)
        then have b: "(of_int (uint b) :: rat) / 100 < of_int (t - 1) + 1" by simp
        from round_half_even_above [OF a b] show ?thesis by simp
      qed
      from up down even show ?thesis
        by (simp add: spec_tenths_half_up_def spec_tenths_half_down_def spec_tenths_half_even_def)
    qed
    have ex: "to_double (of_int (uint b) / 1000) = of_int (uint b) / 1000"
      if "uint b mod 500 = 250"
      using lo hi that by (rule quotient_exact)
    have tie: "(to_double (of_int (uint b) / 1000) < of_int (uint b) / 1000 \<longrightarrow>
            t = uint b div 100)
       \<and> (of_int (uint b) / 1000 < to_double (of_int (uint b) / 1000) \<longrightarrow>
            t = uint b div 100 + 1)
       \<and> (to_double (of_int (uint b) / 1000) = of_int (uint b) / 1000 \<longrightarrow>
            t = (if even (uint b div 100) then uint b div 100 else uint b div 100 + 1))"
      if "uint b mod 100 = 50"
      unfolding t_def using lo hi that by (rule tenths_on_tie)
    have dv: "digit_val (digit_char (nat (t mod 10))) = t mod 10"
      using digit_val_digit_char [OF m] by simp
    from f c t0 u ex tie list_all_isdigit_dec_string [OF t1] digits_val_dec_string [OF t1]
      digit_char_isdigit [OF m] dv
    show ?thesis by (intro exI [of _ t]) blast
  qed
  have e: "format_human_readable 1000 = ''1.0K''
   \<and> format_human_readable 999 = ''999B''
   \<and> format_human_readable 1050 = ''1.1K''
   \<and> format_human_readable 1150 = ''1.1K''
   \<and> format_human_readable 1250 = ''1.2K''
   \<and> format_human_readable 1350 = ''1.4K''
   \<and> format_human_readable 1750 = ''1.8K''"
    by code_simp
  from small kilo e show ?thesis by blast
qed

theorem C6_formatter_nearest_tenth_witness:
  "uint (7 :: ull) < 1000 \<and> format_human_readable 7 = ''7B''
   \<and> 1000 \<le> uint (1150 :: ull) \<and> uint (1150 :: ull) < 1000000
   \<and> uint (1150 :: ull) mod 100 = 50
   \<and> to_double (of_int (uint (1150 :: ull)) / 1000) < of_int (uint (1150 :: ull)) / 1000
   \<and> format_human_readable 1150 = ''1.1K''
   \<and> 1000 \<le> uint (1234 :: ull) \<and> uint (1234 :: ull) < 1000000
   \<and> uint (1234 :: ull) mod 100 \<noteq> 50
   \<and> format_human_readable 1234 = ''1.2K''"
proof -
  have a: "uint (7 :: ull) < 1000" by simp
  have d: "dec_string (uint (7 :: ull)) @ ''B'' = ''7B''" by code_simp
  from C6_formatter_nearest_tenth [of 7] a d have s: "format_human_readable 7 = ''7B''"
    by simp
  have r: "1000 \<le> uint (1150 :: ull) \<and> uint (1150 :: ull) < 1000000" by simp
  have tie: "uint (1150 :: ull) mod 100 = 50" by simp
  have lt: "to_double (of_int (uint (1150 :: ull)) / 1000) < of_int (uint (1150 :: ull)) / 1000"
    by code_simp
  from C6_formatter_nearest_tenth [of 1150] r obtain t where
    f: "format_human_readable 1150
          = dec_string (t div 10) @ ''.'' @ [digit_char (nat (t mod 10))] @ ''K''"
    and c: "uint (1150 :: ull) mod 100 = 50
              \<and> to_double (of_int (uint (1150 :: ull)) / 1000) < of_int (uint (1150 :: ull)) / 1000
            \<longrightarrow> t = uint (1150 :: ull) div 100"
    by blast
  from c tie lt have "t = uint (1150 :: ull) div 100" by blast
  then have t: "t = 11" by simp
  have "dec_string (11 div 10) @ ''.'' @ [digit_char (nat (11 mod 10))] @ ''K'' = ''1.1K''"
    by code_simp
  with f t have k: "format_human_readable 1150 = ''1.1K''" by simp
  have r2: "1000 \<le> uint (1234 :: ull) \<and> uint (1234 :: ull) < 1000000" by simp
  have nt: "uint (1234 :: ull) mod 100 \<noteq> 50" by simp
  from C6_formatter_nearest_tenth [of 1234] r2 obtain t' where
    f': "format_human_readable 1234
          = dec_string (t' div 10) @ ''.'' @ [digit_char (nat (t' mod 10))] @ ''K''"
    and c': "uint (1234 :: ull) mod 100 \<noteq> 50 \<longrightarrow>
                 t' = (uint (1234 :: ull) + 50) div 100 \<and> t' = spec_tenths_half_up (uint (1234 :: ull))
                 \<and> t' = spec_tenths_half_even (uint (1234 :: ull))
                 \<and> t' = spec_tenths_half_down (uint (1234 :: ull))"
    by blast
  from c' nt have "t' = (uint (1234 :: ull) + 50) div 100" by blast
  then have t': "t' = 12" by simp
  have "dec_string (12 div 10) @ ''.'' @ [digit_char (nat (12 mod 10))] @ ''K'' = ''1.2K''"
    by code_simp
  with f' t' have k': "format_human_readable 1234 = ''1.2K''" by simp
  from a s r tie lt k r2 nt k' show ?thesis by blast
qed

subsection \<open>Interface name filter\<close>

lemma starts_with_iff: "starts_with p s = (\<exists>r. s = p @ r)"
proof
  assume "starts_with p s"
  then have "s = p @ drop (length p) s"
    unfolding starts_with_def by (metis append_take_drop_id)
  then show "\<exists>r. s = p @ r" ..
next
  assume "\<exists>r. s = p @ r"
  then show "starts_with p s" by (auto simp: starts_with_def)
qed

lemma list_ex_eq: "list_ex (\<lambda>f. nm = f) fs = (nm \<in> set fs)"
  by (induction fs) auto

text \<open>
  C7: with a non-empty filter list a name is included exactly when it equals an entry of
  the list (comparison of the whole string, case-sensitive); without a list exactly when
  it begins with \<open>eth\<close>, \<open>wlan\<close>, \<open>enp\<close> or \<open>wlp\<close>. So \<open>eth0\<close> and \<open>wlan0\<close> are
  included and \<open>lo\<close> and \<open>docker0\<close> are not, also in a whole read of a source that
  lists \<open>lo\<close>, \<open>eth0\<close>, \<open>wlan0\<close> and \<open>docker0\<close>.
\<close>

theorem C7_inclusion_decision:
  "passes_filter interface_filter nm =
     (if interface_filter \<noteq> [] then nm \<in> set interface_filter
      else (\<exists>r. nm = ''eth'' @ r \<or> nm = ''wlan'' @ r \<or> nm = ''enp'' @ r \<or> nm = ''wlp'' @ r))
   \<and> passes_filter [] ''eth0'' \<and> passes_filter [] ''wlan0''
   \<and> passes_filter [] ''enp3s0'' \<and> passes_filter [] ''wlp2s0''
   \<and> \<not> passes_filter [] ''lo'' \<and> \<not> passes_filter [] ''docker0''
   \<and> \<not> passes_filter [] ''veth0'' \<and> \<not> passes_filter [] ''Eth0''
   \<and> passes_filter [''eth0''] ''eth0'' \<and> passes_filter [''lo''] ''lo''
   \<and> \<not> passes_filter [''eth0''] ''ETH0'' \<and> \<not> passes_filter [''eth0''] ''eth01''
   \<and> \<not> passes_filter [''eth0''] ''wlan0''
   \<and> map name (take 1 (fst (snd (read_interfaces [''eth0''] (Some sample_first) zero_interfaces))))
       = [''eth0'']
   \<and> fst (read_interfaces [''eth0''] (Some sample_first) zero_interfaces) = 1
   \<and> map name (take 2 (fst (snd (read_interfaces [] (Some sample_first) zero_interfaces))))
       = [''eth0'', ''wlan0'']
   \<and> fst (read_interfaces [] (Some sample_first) zero_interfaces) = 2"
proof -
  have g: "passes_filter interface_filter nm =
     (if interface_filter \<noteq> [] then nm \<in> set interface_filter
      else (\<exists>r. nm = ''eth'' @ r \<or> nm = ''wlan'' @ r \<or> nm = ''enp'' @ r \<or> nm = ''wlp'' @ r))"
    by (auto simp: passes_filter_def list_ex_eq is_valid_interface_def regex_alternatives_def
        starts_with_iff simp del: append.simps)
  have e: "passes_filter [] ''eth0'' \<and> passes_filter [] ''wlan0''
   \<and> passes_filter [] ''enp3s0'' \<and> passes_filter [] ''wlp2s0''
   \<and> \<not> passes_filter [] ''lo'' \<and> \<not> passes_filter [] ''docker0''
   \<and> \<not> passes_filter [] ''veth0'' \<and> \<not> passes_filter [] ''Eth0''
   \<and> passes_filter [''eth0''] ''eth0'' \<and> passes_filter [''lo''] ''lo''
   \<and> \<not> passes_filter [''eth0''] ''ETH0'' \<and> \<not> passes_filter [''eth0''] ''eth01''
   \<and> \<not> passes_filter [''eth0''] ''wlan0''"
    by code_simp
  have r: "map name (take 1 (fst (snd (read_interfaces [''eth0''] (Some sample_first) zero_interfaces))))
       = [''eth0'']
   \<and> fst (read_interfaces [''eth0''] (Some sample_first) zero_interfaces) = 1
   \<and> map name (take 2 (fst (snd (read_interfaces [] (Some sample_first) zero_interfaces))))
       = [''eth0'', ''wlan0'']
   \<and> fst (read_interfaces [] (Some sample_first) zero_interfaces) = 2"
    by code_simp
  from g e r show ?thesis by blast
qed

subsection \<open>Snapshot reader\<close>

lemma read_loop_char:
  "count \<le> MAX_INTERFACES \<Longrightarrow> length ifs = MAX_INTERFACES \<Longrightarrow>
   read_loop flt ls ifs count =
     (count + min (length (List.map_filter (parse_line flt) ls)) (MAX_INTERFACES - count),
      take count ifs
      @ take (MAX_INTERFACES - count) (List.map_filter (parse_line flt) ls)
      @ drop (count + min (length (List.map_filter (parse_line flt) ls)) (MAX_INTERFACES - count)) ifs)"
proof (induction ls arbitrary: ifs count)
  case Nil
  then show ?case by simp
next
  case (Cons l ls)
  show ?case
  proof (cases "count < MAX_INTERFACES")
    case False
    with Cons.prems have "count = MAX_INTERFACES" by simp
    with Cons.prems show ?thesis by simp
  next
    case True
    show ?thesis
    proof (cases "parse_line flt l")
      case None
      with True Cons.IH [OF Cons.prems] show ?thesis
        by simp
    next
      case (Some e)
      let ?es = "List.map_filter (parse_line flt) ls"
      have len: "length (ifs[count := e]) = MAX_INTERFACES" using Cons.prems by simp
      have sc: "Suc count \<le> MAX_INTERFACES" using True by simp
      have d: "MAX_INTERFACES - count = Suc (MAX_INTERFACES - Suc count)" using True by simp
      have t: "take (Suc count) (ifs[count := e]) = take count ifs @ [e]"
        using True Cons.prems by (simp add: take_Suc_conv_app_nth)
      have dr: "drop (Suc count + k) (ifs[count := e]) = drop (Suc count + k) ifs" for k
        by simp
      have "read_loop flt (l # ls) ifs count = read_loop flt ls (ifs[count := e]) (Suc count)"
        using True Some by simp
      also have "\<dots> = (Suc count + min (length ?es) (MAX_INTERFACES - Suc count),
          take (Suc count) (ifs[count := e]) @ take (MAX_INTERFACES - Suc count) ?es
          @ drop (Suc count + min (length ?es) (MAX_INTERFACES - Suc count)) (ifs[count := e]))"
        by (rule Cons.IH [OF sc len])
      finally show ?thesis
        using Some by (simp add: t dr d)
    qed
  qed
qed

lemma read_loop_count_mono: "count \<le> fst (read_loop flt ls ifs count)"
proof (induction ls arbitrary: ifs count)
  case Nil
  then show ?case by simp
next
  case (Cons l ls)
  show ?case
  proof (cases "parse_line flt l")
    case None
    with Cons [where ifs = ifs and count = count] show ?thesis by simp
  next
    case (Some e)
    with Cons [where ifs = "ifs[count := e]" and count = "Suc count"] show ?thesis by simp
  qed
qed

lemma read_loop_unchanged:
  "fst (read_loop flt ls ifs count) = count \<Longrightarrow> snd (read_loop flt ls ifs count) = ifs"
proof (induction ls arbitrary: ifs count)
  case Nil
  then show ?case by simp
next
  case (Cons l ls)
  show ?case
  proof (cases "count < MAX_INTERFACES")
    case False
    then show ?thesis by simp
  next
    case True
    show ?thesis
    proof (cases "parse_line flt l")
      case None
      with True Cons show ?thesis by simp
    next
      case (Some e)
      have "Suc count \<le> fst (read_loop flt ls (ifs[count := e]) (Suc count))"
        by (rule read_loop_count_mono)
      with True Some Cons.prems show ?thesis by simp
    qed
  qed
qed

lemma read_loop_count_indep:
  "fst (read_loop flt ls ifs count) = fst (read_loop flt ls ifs' count)"
proof (induction ls arbitrary: ifs ifs' count)
  case Nil
  then show ?case by simp
next
  case (Cons l ls)
  show ?case
  proof (cases "parse_line flt l")
    case None
    with Cons [where ifs = ifs and count = count and ifs' = ifs'] show ?thesis by simp
  next
    case (Some e)
    with Cons [where ifs = "ifs[count := e]" and count = "Suc count" and ifs' = "ifs'[count := e]"]
    show ?thesis by simp
  qed
qed

lemma read_interfaces_count_indep:
  "fst (read_interfaces flt src ifs) = fst (read_interfaces flt src ifs')"
  using read_loop_count_indep [of flt _ ifs 0 ifs']
  by (cases src) (simp_all add: read_interfaces_def split_def)

lemma read_interfaces_no_sample:
  "filter is_sample (snd (snd (read_interfaces flt src ifs))) = []"
  by (cases src) (simp_all add: read_interfaces_def split_def output_error_def)

lemma read_interfaces_unchanged:
  assumes "fst (read_interfaces flt src ifs) \<le> 0"
  shows "fst (snd (read_interfaces flt src ifs)) = ifs"
proof (cases src)
  case None
  then show ?thesis by (simp add: read_interfaces_def)
next
  case (Some content)
  with assms have "fst (read_loop flt (drop 2 (file_lines content)) ifs 0) = 0"
    by (simp add: read_interfaces_def split_def)
  then have "snd (read_loop flt (drop 2 (file_lines content)) ifs 0) = ifs"
    by (rule read_loop_unchanged)
  with Some show ?thesis by (simp add: read_interfaces_def split_def)
qed

lemma map_filter_app:
  "List.map_filter f (xs @ ys) = List.map_filter f xs @ List.map_filter f ys"
  by (simp add: List.map_filter_def)

lemma map_filter_replicate:
  "f x = Some y \<Longrightarrow> List.map_filter f (replicate n x) = replicate n y"
  by (induction n) simp_all

text \<open>
  C8: for every source and a 32-slot array, \<open>read_interfaces\<close> returns at most 32. The
  entries it stores are the first 32 entries that the lines after the two headers give,
  in the order of the source; slots beyond the count keep their content. Once 32 entries
  are stored, lines that follow change nothing.
\<close>

theorem C8_at_most_32_entries:
  assumes "length interfaces = MAX_INTERFACES"
  shows
   "fst (read_interfaces flt (Some content) interfaces) \<le> 32
    \<and> fst (read_interfaces flt (Some content) interfaces)
        = int (min (length (List.map_filter (parse_line flt) (drop 2 (file_lines content)))) 32)
    \<and> take (nat (fst (read_interfaces flt (Some content) interfaces)))
           (fst (snd (read_interfaces flt (Some content) interfaces)))
        = take 32 (List.map_filter (parse_line flt) (drop 2 (file_lines content)))
    \<and> drop (nat (fst (read_interfaces flt (Some content) interfaces)))
           (fst (snd (read_interfaces flt (Some content) interfaces)))
        = drop (nat (fst (read_interfaces flt (Some content) interfaces))) interfaces
    \<and> (fst (read_loop flt ls interfaces 0) = 32 \<longrightarrow>
         read_loop flt (ls @ later) interfaces 0 = read_loop flt ls interfaces 0)"
proof -
  let ?es = "List.map_filter (parse_line flt) (drop 2 (file_lines content))"
  let ?k = "min (length ?es) 32"
  have rl: "read_loop flt xs interfaces 0 =
      (min (length (List.map_filter (parse_line flt) xs)) 32,
       take 32 (List.map_filter (parse_line flt) xs)
       @ drop (min (length (List.map_filter (parse_line flt) xs)) 32) interfaces)" for xs
    using read_loop_char [of 0 interfaces flt xs] assms by (simp add: MAX_INTERFACES_def)
  have ri: "read_interfaces flt (Some content) interfaces =
      (int ?k, take 32 ?es @ drop ?k interfaces, [])"
    by (simp add: read_interfaces_def rl)
  have lt: "length (take 32 ?es) = ?k" by simp
  have c0: "take ?k (take 32 ?es @ drop ?k interfaces) = take 32 ?es"
    by (metis lt append_eq_conv_conj)
  have d0: "drop ?k (take 32 ?es @ drop ?k interfaces) = drop ?k interfaces"
    by (metis lt append_eq_conv_conj)
  have a: "fst (read_interfaces flt (Some content) interfaces) \<le> 32" by (simp add: ri)
  have b: "fst (read_interfaces flt (Some content) interfaces) = int ?k" by (simp add: ri)
  have c: "take (nat (fst (read_interfaces flt (Some content) interfaces)))
           (fst (snd (read_interfaces flt (Some content) interfaces))) = take 32 ?es"
    using c0 d0 by (simp add: ri)
  have d: "drop (nat (fst (read_interfaces flt (Some content) interfaces)))
           (fst (snd (read_interfaces flt (Some content) interfaces)))
        = drop (nat (fst (read_interfaces flt (Some content) interfaces))) interfaces"
    using c0 d0 by (simp add: ri)
  have e: "read_loop flt (ls @ later) interfaces 0 = read_loop flt ls interfaces 0"
    if "fst (read_loop flt ls interfaces 0) = 32"
  proof -
    from that have "32 \<le> length (List.map_filter (parse_line flt) ls)"
      by (simp add: rl)
    then show ?thesis by (simp add: rl map_filter_app min_def)
  qed
  from a b c d e show ?thesis by blast
qed

theorem C8_at_most_32_entries_witness:
  "length zero_interfaces = MAX_INTERFACES
   \<and> fst (read_interfaces [] (Some sample_first) zero_interfaces) = 2
   \<and> fst (read_loop [] (replicate 40 sample_line) zero_interfaces 0) = 32
   \<and> read_loop [] (replicate 40 sample_line @ [sample_line]) zero_interfaces 0
       = read_loop [] (replicate 40 sample_line) zero_interfaces 0"
proof -
  have h: "length zero_interfaces = MAX_INTERFACES"
    by (simp add: zero_interfaces_def)
  have n: "length (List.map_filter (parse_line []) (drop 2 (file_lines sample_first))) = 2"
    by code_simp
  have pl: "parse_line [] sample_line = Some \<lparr>name = ''eth0'', rx_bytes = 1000, tx_bytes = 500\<rparr>"
    by code_simp
  have f: "fst (read_loop [] (replicate 40 sample_line) zero_interfaces 0) = 32"
    using read_loop_char [of 0 zero_interfaces "[]" "replicate 40 sample_line"] h
    by (simp add: map_filter_replicate [of "parse_line []" sample_line, OF pl] MAX_INTERFACES_def)
  from C8_at_most_32_entries [OF h, of "[]" sample_first "replicate 40 sample_line" "[sample_line]"]
    n f h
  show ?thesis by simp
qed

subsection \<open>Polling driver\<close>

lemma loop_step_skip:
  assumes "fst (read_interfaces flt src (curr_interfaces st)) \<le> 0"
  shows "loop_step p flt st src = (st, snd (snd (read_interfaces flt src (curr_interfaces st))))"
  using assms read_interfaces_unchanged [OF assms]
  by (simp add: loop_step_def split_def)

lemma loop_step_advance:
  assumes "0 < fst (read_interfaces flt src (curr_interfaces st))" and "0 < prev_count st"
  shows "prev_count (fst (loop_step p flt st src)) = fst (read_interfaces flt src (curr_interfaces st))
    \<and> (\<exists>rx tx. snd (loop_step p flt st src)
          = snd (snd (read_interfaces flt src (curr_interfaces st))) @ [Json rx tx])"
  using assms
  by (simp add: loop_step_def split_def calculate_and_output_rates_def output_json_def)

lemma read_interfaces_success_silent:
  "0 < fst (read_interfaces flt src ifs) \<Longrightarrow> snd (snd (read_interfaces flt src ifs)) = []"
  by (cases src) (simp_all add: read_interfaces_def split_def)

text \<open>
  C3 (as the code has it): in a cycle whose \<open>fopen\<close> fails the state stays as it was and
  no sample line is written, and \<open>read_interfaces\<close> writes one error line, with the text
  \<open>Error\<close> and the tooltip \<open>Cannot open /proc/net/dev\<close>.
\<close>

theorem C3_open_failure_writes_error_line:
  "loop_step p flt st None = (st, [Error_json ''Error'' ''Cannot open /proc/net/dev''])
   \<and> filter is_sample (snd (loop_step p flt st None)) = []
   \<and> filter is_error (snd (loop_step p flt st None))
       = [Error_json ''Error'' ''Cannot open /proc/net/dev'']"
  by (simp add: loop_step_def read_interfaces_def output_error_def)

text \<open>
  C3 (the claim as stated fails): a run whose first read succeeds and whose second read
  cannot open the source writes an error line in that second cycle.
\<close>

theorem C3_counterexample:
  "snd (main ''netspeed'' [] [] stat_all [Some sample_first, None])
     = [Error_json ''Error'' ''Cannot open /proc/net/dev'']
   \<and> filter is_error (snd (main ''netspeed'' [] [] stat_all [Some sample_first, None])) \<noteq> []"
  by code_simp

text \<open>
  C4: a cycle whose read returns a count of 0 or less (the source could not be opened, or
  it gave no interface) leaves the whole state unchanged, the retained previous entries
  and \<open>prev_count\<close> in particular, and writes no sample line; the cycles that follow run
  from the same state.
\<close>

theorem C4_skipped_cycle_keeps_previous:
  assumes "fst (read_interfaces flt src (curr_interfaces st)) \<le> 0"
  shows "fst (loop_step p flt st src) = st
    \<and> prev_interfaces (fst (loop_step p flt st src)) = prev_interfaces st
    \<and> prev_count (fst (loop_step p flt st src)) = prev_count st
    \<and> filter is_sample (snd (loop_step p flt st src)) = []
    \<and> run_loop p flt st (src # srcs)
        = (fst (run_loop p flt st srcs),
           snd (loop_step p flt st src) @ snd (run_loop p flt st srcs))"
  using loop_step_skip [OF assms, of p] read_interfaces_no_sample [of flt src "curr_interfaces st"]
  by (simp add: split_def)

theorem C4_skipped_cycle_keeps_previous_witness:
  "fst (read_interfaces [] (Some sample_no_match) (curr_interfaces sample_state)) \<le> 0
   \<and> fst (loop_step 1 [] sample_state (Some sample_no_match)) = sample_state
   \<and> filter is_sample (snd (loop_step 1 [] sample_state (Some sample_no_match))) = []"
proof -
  have h: "fst (read_interfaces [] (Some sample_no_match) (curr_interfaces sample_state)) \<le> 0"
    by code_simp
  from C4_skipped_cycle_keeps_previous [OF h, of 1] h show ?thesis by simp
qed

lemma parse_opts_exit:
  "parse_opts progname opts p = Inl (outs, status) \<Longrightarrow> status = 1 \<and> filter is_sample outs = []"
proof (induction progname opts p rule: parse_opts.induct)
  case (1 progname polling_interval)
  then show ?case by simp
next
  case (2 progname optarg rest polling_interval)
  then show ?case by (auto simp: output_error_def split: if_splits)
next
  case (3 progname rest polling_interval)
  then show ?case by auto
qed

lemma parse_opts_interval:
  "parse_opts progname opts p = Inr p' \<Longrightarrow> p \<noteq> 0 \<Longrightarrow> p' \<noteq> 0"
proof (induction progname opts p rule: parse_opts.induct)
  case (1 progname polling_interval)
  then show ?case by simp
next
  case (2 progname optarg rest polling_interval)
  then show ?case by (auto split: if_splits)
next
  case (3 progname rest polling_interval)
  then show ?case by simp
qed

text \<open>
  C2 (evaluation at the failing input). For the argument \<open>-5\<close>, \<open>atoi\<close> returns \<open>-5\<close>;
  stored in the \<open>unsigned int\<close> \<open>polling_interval\<close> this is 4294967291, which is not
  below 1. No error line is written and the process does not exit: it reads, enters the
  loop and writes a sample line.
\<close>

theorem C2_negative_interval_accepted:
  "atoi ''-5'' = - 5
   \<and> parse_opts ''netspeed'' [Opt_t ''-5''] 1 = Inr 4294967291
   \<and> main ''netspeed'' [Opt_t ''-5''] [] stat_all [Some sample_first, Some sample_second]
       = (None, [Json ''0B'' ''0B''])"
  by code_simp

text \<open>
  C9: when the first read of \<open>main\<close> returns a count of 0 or less, the process ends with
  status 1, no sample line is written, and the result is the same whatever later reads
  would have found: the loop is not entered.
\<close>

theorem C9_first_read_failure_exits_1:
  assumes "fst (read_interfaces positional src zero_interfaces) \<le> 0"
  shows "fst (main progname opts positional stat_ok (src # rest)) = Some 1
    \<and> filter is_sample (snd (main progname opts positional stat_ok (src # rest))) = []
    \<and> main progname opts positional stat_ok (src # rest)
        = main progname opts positional stat_ok [src]"
proof (cases "parse_opts progname opts 1")
  case (Inl e)
  obtain outs status where e: "e = (outs, status)" by (cases e)
  with Inl parse_opts_exit [of progname opts 1 outs status] show ?thesis
    by (simp add: main_def)
next
  case (Inr p)
  show ?thesis
  proof (cases "validate_filter stat_ok positional")
    case (Some f)
    with Inr show ?thesis by (simp add: main_def output_error_def)
  next
    case None
    with Inr assms read_interfaces_no_sample [of positional src zero_interfaces]
    show ?thesis by (simp add: main_def split_def)
  qed
qed

theorem C9_first_read_failure_exits_1_witness:
  "fst (read_interfaces [] None zero_interfaces) \<le> 0
   \<and> fst (main ''netspeed'' [] [] stat_all [None, Some sample_first]) = Some 1
   \<and> filter is_sample (snd (main ''netspeed'' [] [] stat_all [None, Some sample_first])) = []"
proof -
  have h: "fst (read_interfaces [] None zero_interfaces) \<le> 0"
    by (simp add: read_interfaces_def)
  from C9_first_read_failure_exits_1 [OF h, of "''netspeed''" "[]" stat_all "[Some sample_first]"] h
  show ?thesis by blast
qed

lemma run_loop_invariant:
  "0 < prev_count st \<Longrightarrow>
   0 < prev_count (fst (run_loop p flt st srcs))
   \<and> length (filter is_sample (snd (run_loop p flt st srcs)))
       = length (filter (\<lambda>src. 0 < fst (read_interfaces flt src zero_interfaces)) srcs)"
proof (induction srcs arbitrary: st)
  case Nil
  then show ?case by simp
next
  case (Cons src srcs)
  have ci: "fst (read_interfaces flt src zero_interfaces)
      = fst (read_interfaces flt src (curr_interfaces st))"
    by (rule read_interfaces_count_indep)
  show ?case
  proof (cases "0 < fst (read_interfaces flt src (curr_interfaces st))")
    case True
    from loop_step_advance [OF True Cons.prems, of p]
    obtain rx tx where pc: "prev_count (fst (loop_step p flt st src))
          = fst (read_interfaces flt src (curr_interfaces st))"
      and o: "snd (loop_step p flt st src)
          = snd (snd (read_interfaces flt src (curr_interfaces st))) @ [Json rx tx]"
      by blast
    from pc True have "0 < prev_count (fst (loop_step p flt st src))" by simp
    from Cons.IH [OF this] o True ci
      read_interfaces_success_silent [OF True]
    show ?thesis by (simp add: split_def)
  next
    case False
    then have le: "fst (read_interfaces flt src (curr_interfaces st)) \<le> 0" by simp
    from loop_step_skip [OF le, of p] Cons.IH [OF Cons.prems] False ci
      read_interfaces_no_sample [of flt src "curr_interfaces st"]
    show ?thesis by (simp add: split_def)
  qed
qed

text \<open>
  C10: from a state with \<open>prev_count\<close> of at least 1, \<open>prev_count\<close> is at least 1 after
  any number of cycles: a cycle either keeps it or replaces it by the positive count of
  its read. So the guard \<open>prev_count > 0\<close> holds in every cycle, each cycle whose read
  returns a positive count writes exactly one line, a sample line, and a run writes as
  many sample lines as it has such cycles. \<open>main\<close> enters the loop in such a state.
\<close>

theorem C10_previous_count_stays_positive:
  assumes "0 < prev_count st"
  shows "0 < prev_count (fst (run_loop p flt st srcs))
    \<and> length (filter is_sample (snd (run_loop p flt st srcs)))
        = length (filter (\<lambda>src. 0 < fst (read_interfaces flt src zero_interfaces)) srcs)
    \<and> (0 < fst (read_interfaces flt src (curr_interfaces st)) \<longrightarrow>
         0 < prev_count (fst (loop_step p flt st src))
         \<and> (\<exists>rx tx. snd (loop_step p flt st src) = [Json rx tx]))
    \<and> (fst (read_interfaces flt src (curr_interfaces st)) \<le> 0 \<longrightarrow>
         prev_count (fst (loop_step p flt st src)) = prev_count st)
    \<and> (parse_opts progname opts 1 = Inr p \<and> validate_filter stat_ok flt = None
         \<and> 0 < fst (read_interfaces flt first zero_interfaces) \<longrightarrow>
         fst (main progname opts flt stat_ok (first # srcs)) = None
         \<and> length (filter is_sample (snd (main progname opts flt stat_ok (first # srcs))))
            = length (filter (\<lambda>src. 0 < fst (read_interfaces flt src zero_interfaces)) srcs))"
proof -
  note inv = run_loop_invariant [OF assms, of p flt srcs]
  have step: "0 < prev_count (fst (loop_step p flt st src))
         \<and> (\<exists>rx tx. snd (loop_step p flt st src) = [Json rx tx])"
    if t: "0 < fst (read_interfaces flt src (curr_interfaces st))"
    using loop_step_advance [OF t assms, of p] read_interfaces_success_silent [OF t] t
    by simp
  have skip: "prev_count (fst (loop_step p flt st src)) = prev_count st"
    if t: "fst (read_interfaces flt src (curr_interfaces st)) \<le> 0"
    using loop_step_skip [OF t, of p] by simp
  have m: "fst (main progname opts flt stat_ok (first # srcs)) = None
         \<and> length (filter is_sample (snd (main progname opts flt stat_ok (first # srcs))))
            = length (filter (\<lambda>src. 0 < fst (read_interfaces flt src zero_interfaces)) srcs)"
    if t: "parse_opts progname opts 1 = Inr p \<and> validate_filter stat_ok flt = None
         \<and> 0 < fst (read_interfaces flt first zero_interfaces)"
  proof -
    let ?r = "read_interfaces flt first zero_interfaces"
    let ?st = "\<lparr>prev_interfaces = fst (snd ?r), curr_interfaces = zero_interfaces,
                prev_count = fst ?r\<rparr>"
    from t have pos: "0 < prev_count ?st" by simp
    from run_loop_invariant [OF pos, of p flt srcs] t
      read_interfaces_success_silent [of flt first zero_interfaces]
    show ?thesis by (simp add: main_def split_def)
  qed
  from inv step skip m show ?thesis by blast
qed

theorem C10_previous_count_stays_positive_witness:
  "0 < prev_count sample_state
   \<and> 0 < prev_count (fst (run_loop 1 [] sample_state [Some sample_first, None, Some sample_second]))
   \<and> length (filter is_sample
        (snd (run_loop 1 [] sample_state [Some sample_first, None, Some sample_second]))) = 2"
proof -
  have h: "0 < prev_count sample_state"
    by (simp add: sample_state_def)
  have n: "length (filter (\<lambda>src. 0 < fst (read_interfaces [] src zero_interfaces))
             [Some sample_first, None, Some sample_second]) = 2"
    by code_simp
  from C10_previous_count_stays_positive [OF h, of 1 "[]" "[Some sample_first, None, Some sample_second]"]
    n h
  show ?thesis by simp
qed

end
